theory Spec2Isabelle
  imports Main "HOL-Library.Multiset"
begin

section \<open>The transitive-closure trigger of \<open>get_pg_tc\<close>\<close>

text \<open>
  The function \<open>get_pg_tc\<close> of \<open>aiida/backends/sqlalchemy/utils.py\<close> returns the text of
  a PL/pgSQL trigger function \<open>update_tc\<close>, installed \<open>AFTER INSERT OR DELETE OR UPDATE\<close>
  on the links table (\<open>db_dblink\<close>) and maintaining the closure table (\<open>db_dbpath\<close>).
  The embedding below follows the trigger body statement by statement.

  SQL integers are modelled as \<open>int\<close>. The three edge columns are nullable in the source
  (the first \<open>INSERT\<close> leaves them out and an \<open>UPDATE\<close> fills them in), so they are
  \<open>int option\<close> with \<open>None\<close> for \<open>NULL\<close>. A table is the list of its rows in insertion
  order. The \<open>id\<close> column is drawn from a sequence; the state keeps the last value the
  sequence handed out, which is what \<open>lastval()\<close> reads.
\<close>

subsection \<open>Data\<close>

record path_row =
  row_id :: int
  parent_id :: int
  child_id :: int
  depth :: int
  entry_edge_id :: "int option"
  direct_edge_id :: "int option"
  exit_edge_id :: "int option"

record link =
  input_id :: int
  output_id :: int

record db =
  db_dbpath :: "path_row list"
  dbpath_seq :: int

datatype tg_op = TG_INSERT | TG_DELETE | TG_UPDATE

text \<open>
  Every path through the trigger ends in \<open>RETURN NULL\<close>; the model records which of the
  four return statements was reached: the one after the depth-0 test of the insert
  branch, the one after its self-loop and back-path test, the one after the depth-0 test
  of the delete branch, and the final one.
\<close>

datatype exit_point = Return_linked | Return_cycle | Return_absent | Return_end

text \<open>The values of one inserted row, in the column order of the source's
  \<open>INSERT\<close> statements: entry edge, direct edge, exit edge, parent, child, depth.\<close>

type_synonym new_row = "int option \<times> int option \<times> int option \<times> int \<times> int \<times> int"

definition empty_db :: db where
  "empty_db = \<lparr>db_dbpath = [], dbpath_seq = 0\<rparr>"

subsection \<open>The statements of the trigger\<close>

text \<open>\<open>EXISTS (SELECT id FROM closure WHERE parent = p AND child = c AND depth = 0)\<close>\<close>

definition exists_direct :: "path_row list \<Rightarrow> int \<Rightarrow> int \<Rightarrow> bool" where
  "exists_direct t p c =
     (filter (\<lambda>r. parent_id r = p \<and> child_id r = c \<and> depth r = 0) t \<noteq> [])"

text \<open>\<open>EXISTS (SELECT id FROM closure WHERE parent = p AND child = c)\<close>\<close>

definition exists_path :: "path_row list \<Rightarrow> int \<Rightarrow> int \<Rightarrow> bool" where
  "exists_path t p c = (filter (\<lambda>r. parent_id r = p \<and> child_id r = c) t \<noteq> [])"

text \<open>Inserting one row: the id is the next value of the sequence.\<close>

definition new_path_row :: "int \<Rightarrow> new_row \<Rightarrow> path_row" where
  "new_path_row n v =
     (case v of (en, di, ex, p, c, d) \<Rightarrow>
        \<lparr>row_id = n, parent_id = p, child_id = c, depth = d,
         entry_edge_id = en, direct_edge_id = di, exit_edge_id = ex\<rparr>)"

definition insert_row :: "new_row \<Rightarrow> db \<Rightarrow> db" where
  "insert_row v s =
     \<lparr>db_dbpath = db_dbpath s @ [new_path_row (dbpath_seq s + 1) v],
      dbpath_seq = dbpath_seq s + 1\<rparr>"

text \<open>\<open>INSERT INTO closure (...) SELECT ...\<close>: the rows of the query, computed on the
  table as it is when the statement starts, are inserted one after the other.\<close>

definition insert_rows :: "new_row list \<Rightarrow> db \<Rightarrow> db" where
  "insert_rows vs s = fold insert_row vs s"

text \<open>\<open>UPDATE closure SET entry_edge_id = n, exit_edge_id = n, direct_edge_id = n
  WHERE id = n\<close>\<close>

definition update_edges :: "int \<Rightarrow> db \<Rightarrow> db" where
  "update_edges n s =
     s\<lparr>db_dbpath :=
         map (\<lambda>r. if row_id r = n
                   then r\<lparr>entry_edge_id := Some n, exit_edge_id := Some n,
                          direct_edge_id := Some n\<rparr>
                   else r) (db_dbpath s)\<rparr>"

text \<open>The query of the second \<open>INSERT\<close>: every row whose child is the new link's input.\<close>

definition sel_into_input :: "path_row list \<Rightarrow> link \<Rightarrow> int \<Rightarrow> new_row list" where
  "sel_into_input t new new_id =
     map (\<lambda>r. (Some (row_id r), Some new_id, Some new_id,
               parent_id r, output_id new, depth r + 1))
         (filter (\<lambda>r. child_id r = input_id new) t)"

text \<open>The query of the third \<open>INSERT\<close>: every row whose parent is the new link's output.\<close>

definition sel_from_output :: "path_row list \<Rightarrow> link \<Rightarrow> int \<Rightarrow> new_row list" where
  "sel_from_output t new new_id =
     map (\<lambda>r. (Some new_id, Some new_id, Some (row_id r),
               input_id new, child_id r, depth r + 1))
         (filter (\<lambda>r. parent_id r = output_id new) t)"

text \<open>The query of the fourth \<open>INSERT\<close>: the cross join of the table with itself.\<close>

definition sel_cross :: "path_row list \<Rightarrow> link \<Rightarrow> int \<Rightarrow> new_row list" where
  "sel_cross t new new_id =
     concat (map (\<lambda>a. map (\<lambda>b. (Some (row_id a), Some new_id, Some (row_id b),
                                 parent_id a, child_id b, depth a + depth b + 2))
                           (filter (\<lambda>b. parent_id b = output_id new) t))
                 (filter (\<lambda>a. child_id a = input_id new) t))"

text \<open>The branch \<open>IF tg_op = 'INSERT'\<close>.\<close>

definition on_insert :: "link \<Rightarrow> db \<Rightarrow> exit_point \<times> db" where
  "on_insert new s =
     (if exists_direct (db_dbpath s) (input_id new) (output_id new)
      then (Return_linked, s)
      else if input_id new = output_id new
              \<or> exists_path (db_dbpath s) (output_id new) (input_id new)
      then (Return_cycle, s)
      else
        let s1 = insert_row (None, None, None, input_id new, output_id new, 0) s;
            new_id = dbpath_seq s1;
            s2 = update_edges new_id s1;
            s3 = insert_rows (sel_into_input (db_dbpath s2) new new_id) s2;
            s4 = insert_rows (sel_from_output (db_dbpath s3) new new_id) s3;
            s5 = insert_rows (sel_cross (db_dbpath s4) new new_id) s4
        in (Return_end, s5))"

text \<open>\<open>x IN (SELECT Id FROM PurgeList)\<close>; a \<open>NULL\<close> on the left never selects the row.\<close>

definition in_purge :: "int option \<Rightarrow> int list \<Rightarrow> bool" where
  "in_purge x pl = (case x of None \<Rightarrow> False | Some v \<Rightarrow> v \<in> set pl)"

text \<open>The query inside the loop.\<close>

definition purge_scan :: "path_row list \<Rightarrow> int list \<Rightarrow> int list" where
  "purge_scan t pl =
     map row_id
       (filter (\<lambda>r. depth r > 0
                    \<and> (in_purge (entry_edge_id r) pl
                       \<or> in_purge (direct_edge_id r) pl
                       \<or> in_purge (exit_edge_id r) pl)
                    \<and> row_id r \<notin> set pl) t)"

lemma purge_scan_measure:
  assumes "purge_scan t pl \<noteq> []"
  shows "length (filter (\<lambda>r. row_id r \<notin> set (pl @ purge_scan t pl)) t)
         < length (filter (\<lambda>r. row_id r \<notin> set pl) t)"
proof -
  from assms obtain x where "x \<in> set (purge_scan t pl)"
    by (cases "purge_scan t pl") auto
  then obtain r where r: "r \<in> set t" "row_id r \<notin> set pl"
      "row_id r \<in> set (purge_scan t pl)"
    unfolding purge_scan_def by auto
  have "filter (\<lambda>r. row_id r \<notin> set (pl @ purge_scan t pl)) t
        = filter (\<lambda>r. row_id r \<notin> set (purge_scan t pl)) (filter (\<lambda>r. row_id r \<notin> set pl) t)"
    by (induction t) auto
  moreover have "length (filter (\<lambda>r. row_id r \<notin> set (purge_scan t pl))
                           (filter (\<lambda>r. row_id r \<notin> set pl) t))
                 < length (filter (\<lambda>r. row_id r \<notin> set pl) t)"
    by (rule length_filter_less [of r]) (use r in auto)
  ultimately show ?thesis by simp
qed

text \<open>The loop \<open>WHILE (1 = 1)\<close>: the query's rows are added to the purge list, and the
  loop exits when the statement's row count is zero.\<close>

function purge_loop :: "path_row list \<Rightarrow> int list \<Rightarrow> int list" where
  "purge_loop t pl =
     (let found = purge_scan t pl;
          pl' = pl @ found;
          num_rows = length found
      in if num_rows = 0 then pl' else purge_loop t pl')"
  by pat_completeness auto
termination
  by (relation "measure (\<lambda>(t, pl). length (filter (\<lambda>r. row_id r \<notin> set pl) t))")
     (use purge_scan_measure in auto)

declare purge_loop.simps [simp del]

text \<open>The number of times the loop body runs, counted along the same recursion.\<close>

function purge_iterations :: "path_row list \<Rightarrow> int list \<Rightarrow> nat" where
  "purge_iterations t pl =
     (let found = purge_scan t pl;
          pl' = pl @ found;
          num_rows = length found
      in if num_rows = 0 then 1 else 1 + purge_iterations t pl')"
  by pat_completeness auto
termination
  by (relation "measure (\<lambda>(t, pl). length (filter (\<lambda>r. row_id r \<notin> set pl) t))")
     (use purge_scan_measure in auto)

declare purge_iterations.simps [simp del]

text \<open>The first \<open>INSERT INTO PurgeList\<close>: the ids of the depth-0 rows of the old link.\<close>

definition purge_seed :: "path_row list \<Rightarrow> link \<Rightarrow> int list" where
  "purge_seed t old =
     map row_id (filter (\<lambda>r. parent_id r = input_id old \<and> child_id r = output_id old
                             \<and> depth r = 0) t)"

text \<open>The branch \<open>IF tg_op = 'DELETE'\<close>.\<close>

definition on_delete :: "link \<Rightarrow> db \<Rightarrow> exit_point \<times> db" where
  "on_delete old s =
     (if \<not> exists_direct (db_dbpath s) (input_id old) (output_id old)
      then (Return_absent, s)
      else
        let PurgeList = purge_loop (db_dbpath s) (purge_seed (db_dbpath s) old)
        in (Return_end,
            s\<lparr>db_dbpath := filter (\<lambda>r. row_id r \<notin> set PurgeList) (db_dbpath s)\<rparr>))"

text \<open>The trigger function. \<open>new\<close> is the inserted or updated link row, \<open>old\<close> the
  deleted or replaced one.\<close>

definition update_tc :: "tg_op \<Rightarrow> link \<Rightarrow> link \<Rightarrow> db \<Rightarrow> exit_point \<times> db" where
  "update_tc op new old s =
     (if op = TG_INSERT then on_insert new s
      else if op = TG_DELETE then on_delete old s
      else (Return_end, s))"

subsection \<open>The insertion of the specification\<close>

text \<open>
  The specification's insertion handler, in the specification's words: after the cycle
  guard and the depth-0 entry (steps 1 and 2), steps 3, 4 and 5 are all evaluated on the
  snapshot of the closure table taken before this call inserted anything. It is compared
  with \<open>on_insert\<close>, where each statement reads the table the previous ones left.
\<close>

definition on_insert_snapshot :: "link \<Rightarrow> db \<Rightarrow> exit_point \<times> db" where
  "on_insert_snapshot new s =
     (if exists_direct (db_dbpath s) (input_id new) (output_id new)
      then (Return_linked, s)
      else if input_id new = output_id new
              \<or> exists_path (db_dbpath s) (output_id new) (input_id new)
      then (Return_cycle, s)
      else
        let snapshot = db_dbpath s;
            s1 = insert_row (None, None, None, input_id new, output_id new, 0) s;
            new_id = dbpath_seq s1;
            s2 = update_edges new_id s1;
            s3 = insert_rows (sel_into_input snapshot new new_id) s2;
            s4 = insert_rows (sel_from_output snapshot new new_id) s3;
            s5 = insert_rows (sel_cross snapshot new new_id) s4
        in (Return_end, s5))"

subsection \<open>Running the trigger\<close>

text \<open>The closure table after the trigger has fired for one link row \<open>(i, out)\<close>.\<close>

definition fire :: "tg_op \<Rightarrow> int \<Rightarrow> int \<Rightarrow> db \<Rightarrow> db" where
  "fire op i out s =
     snd (update_tc op \<lparr>input_id = i, output_id = out\<rparr>
                       \<lparr>input_id = i, output_id = out\<rparr> s)"

text \<open>The chain \<open>a \<rightarrow> b \<rightarrow> c \<rightarrow> d\<close>, its links inserted in this order into the empty
  table.\<close>

definition chain_db :: "int \<Rightarrow> int \<Rightarrow> int \<Rightarrow> int \<Rightarrow> db" where
  "chain_db a b c d =
     fire TG_INSERT c d (fire TG_INSERT b c (fire TG_INSERT a b empty_db))"

text \<open>
  The links table and the closure table together. The links table is not under the
  trigger's control; it is kept here as the list of links \<open>(input, output)\<close> it holds. An
  insertion the trigger accepts (it reaches its final return) adds its link; one it
  rejects leaves the links as they are, as the specification asks of the edge store. A
  deletion removes the link and fires the trigger.
\<close>

datatype event = Insert_link int int | Delete_link int int

fun step :: "event \<Rightarrow> (int \<times> int) list \<times> db \<Rightarrow> (int \<times> int) list \<times> db" where
  "step (Insert_link i out) (ls, s) =
     (case update_tc TG_INSERT \<lparr>input_id = i, output_id = out\<rparr>
                               \<lparr>input_id = i, output_id = out\<rparr> s of
        (e, s') \<Rightarrow> if e = Return_end then (ls @ [(i, out)], s') else (ls, s'))"
| "step (Delete_link i out) (ls, s) = (removeAll (i, out) ls, fire TG_DELETE i out s)"

definition run :: "event list \<Rightarrow> (int \<times> int) list \<times> db" where
  "run evs = fold step evs ([], empty_db)"

subsection \<open>The links table under the trigger\<close>



subsection \<open>Predicates used in the statements\<close>

text \<open>
  A row of depth above 0 is justified in a table when the table holds the rows it cites
  and they compose to it: its direct edge is a depth-0 row \<open>d\<close>; its entry edge is
  either \<open>d\<close> itself, and then the row starts where \<open>d\<close> starts, or a shallower row
  from the row's parent to the start of \<open>d\<close>; its exit edge is either \<open>d\<close> itself, and
  then the row ends where \<open>d\<close> ends, or a shallower row from the end of \<open>d\<close> to the
  row's child.
\<close>

definition justified :: "path_row list \<Rightarrow> path_row \<Rightarrow> bool" where
  "justified t r =
     (\<exists>d\<in>set t. depth d = 0 \<and> direct_edge_id r = Some (row_id d)
        \<and> (entry_edge_id r = Some (row_id d) \<and> parent_id r = parent_id d
            \<or> (\<exists>e\<in>set t. entry_edge_id r = Some (row_id e) \<and> depth e < depth r
                  \<and> parent_id e = parent_id r \<and> child_id e = parent_id d))
        \<and> (exit_edge_id r = Some (row_id d) \<and> child_id r = child_id d
            \<or> (\<exists>f\<in>set t. exit_edge_id r = Some (row_id f) \<and> depth f < depth r
                  \<and> parent_id f = child_id d \<and> child_id f = child_id r)))"

text \<open>The invariant of the links and the closure table: ids are distinct and were all
  handed out by the sequence, depths are not negative, every depth-0 row is a link, and
  every deeper row is justified.\<close>

definition tc_inv :: "(int \<times> int) list \<Rightarrow> db \<Rightarrow> bool" where
  "tc_inv ls s =
     (distinct (map row_id (db_dbpath s))
      \<and> (\<forall>r\<in>set (db_dbpath s). row_id r \<le> dbpath_seq s)
      \<and> (\<forall>r\<in>set (db_dbpath s). 0 \<le> depth r)
      \<and> (\<forall>r\<in>set (db_dbpath s). depth r = 0 \<longrightarrow> (parent_id r, child_id r) \<in> set ls)
      \<and> (\<forall>r\<in>set (db_dbpath s). 0 < depth r \<longrightarrow> justified (db_dbpath s) r))"

text \<open>
  Two tables are the same up to entry identifiers when renaming the identifiers of the
  first, in the \<open>id\<close> column and in the three edge columns alike, gives the rows of the
  second.
\<close>

definition rename_row :: "(int \<Rightarrow> int) \<Rightarrow> path_row \<Rightarrow> path_row" where
  "rename_row f r =
     r\<lparr>row_id := f (row_id r),
       entry_edge_id := map_option f (entry_edge_id r),
       direct_edge_id := map_option f (direct_edge_id r),
       exit_edge_id := map_option f (exit_edge_id r)\<rparr>"

definition same_up_to_ids :: "path_row list \<Rightarrow> path_row list \<Rightarrow> bool" where
  "same_up_to_ids t t' =
     (\<exists>f. inj_on f (set (map row_id t)) \<and> mset (map (rename_row f) t) = mset t')"

text \<open>The reachable pair, and the depth of the path, that a row certifies.\<close>

definition path_of :: "path_row \<Rightarrow> int \<times> int \<times> int" where
  "path_of r = (parent_id r, child_id r, depth r)"

subsection \<open>Facts about the statements\<close>

lemma insert_rows_Nil [simp]: "insert_rows [] s = s"
  by (simp add: insert_rows_def)

lemma insert_rows_Cons [simp]: "insert_rows (v # vs) s = insert_rows vs (insert_row v s)"
  by (simp add: insert_rows_def)

lemma db_dbpath_insert_row [simp]:
  "db_dbpath (insert_row v s) = db_dbpath s @ [new_path_row (dbpath_seq s + 1) v]"
  by (simp add: insert_row_def)

lemma dbpath_seq_insert_row [simp]: "dbpath_seq (insert_row v s) = dbpath_seq s + 1"
  by (simp add: insert_row_def)

lemma db_dbpath_update_edges [simp]:
  "db_dbpath (update_edges n s) =
     map (\<lambda>r. if row_id r = n
               then r\<lparr>entry_edge_id := Some n, exit_edge_id := Some n,
                      direct_edge_id := Some n\<rparr>
               else r) (db_dbpath s)"
  by (simp add: update_edges_def)

lemma dbpath_seq_update_edges [simp]: "dbpath_seq (update_edges n s) = dbpath_seq s"
  by (simp add: update_edges_def)

lemma new_path_row_sel [simp]:
  "row_id (new_path_row n (en, di, ex, p, c, d)) = n"
  "parent_id (new_path_row n (en, di, ex, p, c, d)) = p"
  "child_id (new_path_row n (en, di, ex, p, c, d)) = c"
  "depth (new_path_row n (en, di, ex, p, c, d)) = d"
  "entry_edge_id (new_path_row n (en, di, ex, p, c, d)) = en"
  "direct_edge_id (new_path_row n (en, di, ex, p, c, d)) = di"
  "exit_edge_id (new_path_row n (en, di, ex, p, c, d)) = ex"
  by (simp_all add: new_path_row_def)

lemma insert_rows_appends:
  "\<exists>ns. db_dbpath (insert_rows vs s) = db_dbpath s @ ns
        \<and> length ns = length vs
        \<and> (\<forall>r\<in>set ns. \<exists>n. \<exists>v\<in>set vs. r = new_path_row n v)"
proof (induction vs arbitrary: s)
  case Nil
  show ?case by simp
next
  case (Cons v vs)
  from Cons.IH [of "insert_row v s"] obtain ns where
    ns: "db_dbpath (insert_rows vs (insert_row v s)) = db_dbpath (insert_row v s) @ ns"
        "length ns = length vs"
        "\<forall>r\<in>set ns. \<exists>n. \<exists>v\<in>set vs. r = new_path_row n v"
    by blast
  let ?ms = "new_path_row (dbpath_seq s + 1) v # ns"
  have "db_dbpath (insert_rows (v # vs) s) = db_dbpath s @ ?ms"
    using ns(1) by simp
  moreover have "length ?ms = length (v # vs)"
    using ns(2) by simp
  moreover have "\<forall>r\<in>set ?ms. \<exists>n. \<exists>w\<in>set (v # vs). r = new_path_row n w"
    using ns(3) by (simp, blast)
  ultimately show ?case by blast
qed

lemma sel_into_input_update:
  "sel_into_input (map (\<lambda>r. if row_id r = n
               then r\<lparr>entry_edge_id := Some n, exit_edge_id := Some n,
                      direct_edge_id := Some n\<rparr>
               else r) t) new k = sel_into_input t new k"
  unfolding sel_into_input_def by (induction t) auto

lemma sel_from_output_update:
  "sel_from_output (map (\<lambda>r. if row_id r = n
               then r\<lparr>entry_edge_id := Some n, exit_edge_id := Some n,
                      direct_edge_id := Some n\<rparr>
               else r) t) new k = sel_from_output t new k"
  unfolding sel_from_output_def by (induction t) auto

lemma sel_cross_alt:
  "sel_cross t new k =
     concat (map (\<lambda>(pa, ia, da). map (\<lambda>(cb, ib, db). (Some ia, Some k, Some ib, pa, cb, da + db + 2))
                           (map (\<lambda>b. (child_id b, row_id b, depth b)) (filter (\<lambda>b. parent_id b = output_id new) t)))
                 (map (\<lambda>a. (parent_id a, row_id a, depth a)) (filter (\<lambda>a. child_id a = input_id new) t)))"
  unfolding sel_cross_def by (simp add: comp_def)

lemma proj_update:
  "map f (filter P (map (\<lambda>r. if row_id r = n
               then r\<lparr>entry_edge_id := Some n, exit_edge_id := Some n,
                      direct_edge_id := Some n\<rparr>
               else r) t)) = map f (filter P t)"
  if "\<And>r. f (r\<lparr>entry_edge_id := Some n, exit_edge_id := Some n, direct_edge_id := Some n\<rparr>) = f r"
     "\<And>r. P (r\<lparr>entry_edge_id := Some n, exit_edge_id := Some n, direct_edge_id := Some n\<rparr>) = P r"
  using that by (induction t) auto

lemma sel_cross_update:
  "sel_cross (map (\<lambda>r. if row_id r = n
               then r\<lparr>entry_edge_id := Some n, exit_edge_id := Some n,
                      direct_edge_id := Some n\<rparr>
               else r) t) new k = sel_cross t new k"
  unfolding sel_cross_alt by (simp add: proj_update)

lemma sel_into_input_append:
  "\<forall>r\<in>set t'. child_id r \<noteq> input_id new \<Longrightarrow>
   sel_into_input (t @ t') new k = sel_into_input t new k"
  unfolding sel_into_input_def by (simp add: filter_empty_conv)

lemma sel_from_output_append:
  "\<forall>r\<in>set t'. parent_id r \<noteq> output_id new \<Longrightarrow>
   sel_from_output (t @ t') new k = sel_from_output t new k"
  unfolding sel_from_output_def by (simp add: filter_empty_conv)

lemma sel_cross_append:
  "\<forall>r\<in>set t'. child_id r \<noteq> input_id new \<and> parent_id r \<noteq> output_id new \<Longrightarrow>
   sel_cross (t @ t') new k = sel_cross t new k"
proof -
  assume a: "\<forall>r\<in>set t'. child_id r \<noteq> input_id new \<and> parent_id r \<noteq> output_id new"
  then have "filter (\<lambda>a. child_id a = input_id new) t' = []"
    "filter (\<lambda>b. parent_id b = output_id new) t' = []"
    by (simp_all add: filter_empty_conv)
  then show ?thesis unfolding sel_cross_def by simp
qed


lemma exists_path_iff:
  "exists_path t p c = (\<exists>r\<in>set t. parent_id r = p \<and> child_id r = c)"
  by (auto simp: exists_path_def filter_empty_conv)

lemma exists_direct_iff:
  "exists_direct t p c = (\<exists>r\<in>set t. parent_id r = p \<and> child_id r = c \<and> depth r = 0)"
  by (auto simp: exists_direct_def filter_empty_conv)


lemma sequential_is_snapshot:
  assumes io: "input_id new \<noteq> output_id new"
    and nb: "\<not> exists_path (db_dbpath s) (output_id new) (input_id new)"
  defines "s2 \<equiv> update_edges (dbpath_seq s + 1)
                  (insert_row (None, None, None, input_id new, output_id new, 0) s)"
  defines "k \<equiv> dbpath_seq s + 1"
  defines "s3 \<equiv> insert_rows (sel_into_input (db_dbpath s) new k) s2"
  defines "s4 \<equiv> insert_rows (sel_from_output (db_dbpath s) new k) s3"
  shows "sel_into_input (db_dbpath s2) new k = sel_into_input (db_dbpath s) new k"
    and "sel_from_output (db_dbpath s3) new k = sel_from_output (db_dbpath s) new k"
    and "sel_cross (db_dbpath s4) new k = sel_cross (db_dbpath s) new k"
proof -
  let ?t0 = "db_dbpath s"
  let ?d0 = "new_path_row k (None, None, None, input_id new, output_id new, 0)"
  have noback: "\<And>r. r \<in> set ?t0 \<Longrightarrow> parent_id r = output_id new \<Longrightarrow> child_id r \<noteq> input_id new"
    using nb by (auto simp: exists_path_iff)
  show in3: "sel_into_input (db_dbpath s2) new k = sel_into_input ?t0 new k"
    using io unfolding s2_def k_def
    by (simp add: sel_into_input_update del: map_append)
       (simp add: sel_into_input_append)
  obtain n3 where n3: "db_dbpath s3 = db_dbpath s2 @ n3"
      "\<forall>r\<in>set n3. \<exists>n. \<exists>v\<in>set (sel_into_input ?t0 new k). r = new_path_row n v"
    using insert_rows_appends [of "sel_into_input ?t0 new k" s2]
    unfolding s3_def by blast
  have n3_rows: "\<forall>r\<in>set n3. child_id r \<noteq> input_id new \<and> parent_id r \<noteq> output_id new"
  proof
    fix r assume "r \<in> set n3"
    with n3(2) obtain n v where v: "v \<in> set (sel_into_input ?t0 new k)" "r = new_path_row n v"
      by blast
    then obtain e where "e \<in> set ?t0" "child_id e = input_id new"
        "v = (Some (row_id e), Some k, Some k, parent_id e, output_id new, depth e + 1)"
      unfolding sel_into_input_def by auto
    with v(2) io noback [of e] show "child_id r \<noteq> input_id new \<and> parent_id r \<noteq> output_id new"
      by auto
  qed
  have s2_out: "sel_from_output (db_dbpath s2) new k = sel_from_output ?t0 new k"
    using io unfolding s2_def k_def
    by (simp add: sel_from_output_update del: map_append)
       (simp add: sel_from_output_append)
  show in4: "sel_from_output (db_dbpath s3) new k = sel_from_output ?t0 new k"
    using n3_rows by (simp add: n3(1) sel_from_output_append s2_out)
  obtain n4 where n4: "db_dbpath s4 = db_dbpath s3 @ n4"
      "\<forall>r\<in>set n4. \<exists>n. \<exists>v\<in>set (sel_from_output ?t0 new k). r = new_path_row n v"
    using insert_rows_appends [of "sel_from_output ?t0 new k" s3]
    unfolding s4_def by blast
  have n4_rows: "\<forall>r\<in>set n4. child_id r \<noteq> input_id new \<and> parent_id r \<noteq> output_id new"
  proof
    fix r assume "r \<in> set n4"
    with n4(2) obtain n v where v: "v \<in> set (sel_from_output ?t0 new k)" "r = new_path_row n v"
      by blast
    then obtain f where "f \<in> set ?t0" "parent_id f = output_id new"
        "v = (Some k, Some k, Some (row_id f), input_id new, child_id f, depth f + 1)"
      unfolding sel_from_output_def by auto
    with v(2) io noback [of f] show "child_id r \<noteq> input_id new \<and> parent_id r \<noteq> output_id new"
      by auto
  qed
  have s2_cross: "sel_cross (db_dbpath s2) new k = sel_cross ?t0 new k"
    using io unfolding s2_def k_def
    by (simp add: sel_cross_update del: map_append)
       (simp add: sel_cross_append)
  have "db_dbpath s4 = db_dbpath s2 @ (n3 @ n4)"
    by (simp add: n4(1) n3(1))
  moreover have "\<forall>r\<in>set (n3 @ n4). child_id r \<noteq> input_id new \<and> parent_id r \<noteq> output_id new"
    using n3_rows n4_rows by auto
  ultimately show "sel_cross (db_dbpath s4) new k = sel_cross ?t0 new k"
    using sel_cross_append [of "n3 @ n4" new "db_dbpath s2" k] s2_cross by simp
qed

lemmas stmt_defs = update_tc_def on_insert_def on_delete_def empty_db_def
  insert_row_def insert_rows_def update_edges_def new_path_row_def
  sel_into_input_def sel_from_output_def sel_cross_def
  exists_direct_def exists_path_def purge_seed_def purge_scan_def in_purge_def

subsection \<open>Insertion reads the pre-insertion snapshot\<close>

text \<open>
  Claim C2. Whatever the table and the link, the insert branch of the trigger, whose
  three \<open>INSERT ... SELECT\<close> statements run one after the other on the table the
  previous statements left (the new depth-0 row included), returns at the same
  statement and leaves the same table and sequence value as the insertion that evaluates
  all three queries on the snapshot taken before the call inserted anything. So no row
  inserted by a call is read by one of the call's own queries.
\<close>

theorem on_insert_reads_snapshot: "on_insert new s = on_insert_snapshot new s"
proof (cases "exists_direct (db_dbpath s) (input_id new) (output_id new)
              \<or> input_id new = output_id new
              \<or> exists_path (db_dbpath s) (output_id new) (input_id new)")
  case True
  then show ?thesis
    by (auto simp: on_insert_def on_insert_snapshot_def)
next
  case False
  then have io: "input_id new \<noteq> output_id new"
    and nb: "\<not> exists_path (db_dbpath s) (output_id new) (input_id new)"
    by auto
  show ?thesis
    unfolding on_insert_def on_insert_snapshot_def Let_def dbpath_seq_insert_row
      sequential_is_snapshot [OF io nb]
    by (rule refl)
qed

text \<open>An instance: the link \<open>(2, 3)\<close> put between the links \<open>(1, 2)\<close> and \<open>(3, 4)\<close>, where
  all three queries find rows.\<close>

theorem on_insert_reads_snapshot_witness:
  "fst (on_insert \<lparr>input_id = 2, output_id = 3\<rparr>
          (fire TG_INSERT 3 4 (fire TG_INSERT 1 2 empty_db))) = Return_end
   \<and> length (db_dbpath (snd (on_insert_snapshot \<lparr>input_id = 2, output_id = 3\<rparr>
          (fire TG_INSERT 3 4 (fire TG_INSERT 1 2 empty_db))))) = 6"
  unfolding on_insert_reads_snapshot [symmetric]
  by (simp add: fire_def stmt_defs Let_def)

subsection \<open>The cycle guard\<close>





subsection \<open>Deleting a link that has no depth-0 row\<close>

text \<open>
  Claim C6. For every table and every deleted link \<open>old\<close> for which no depth-0 row
  exists, the trigger returns at the early return of its delete branch, an ordinary
  \<open>RETURN NULL\<close>, and the table and the sequence are exactly as before.
\<close>

theorem delete_absent_noop:
  assumes "\<not> exists_direct (db_dbpath s) (input_id old) (output_id old)"
  shows "update_tc TG_DELETE new old s = (Return_absent, s)"
  using assms by (simp add: update_tc_def on_delete_def)

text \<open>An instance: after the links \<open>(1, 2)\<close> and \<open>(2, 3)\<close> the pair \<open>(1, 3)\<close> has a depth-1
  row but no depth-0 row, and deleting a link \<open>(1, 3)\<close> changes nothing.\<close>

theorem delete_absent_noop_witness:
  "\<not> exists_direct (db_dbpath (fire TG_INSERT 2 3 (fire TG_INSERT 1 2 empty_db))) 1 3
   \<and> fire TG_DELETE 1 3 (fire TG_INSERT 2 3 (fire TG_INSERT 1 2 empty_db))
      = fire TG_INSERT 2 3 (fire TG_INSERT 1 2 empty_db)"
proof -
  let ?s = "fire TG_INSERT 2 3 (fire TG_INSERT 1 2 empty_db)"
  have h: "\<not> exists_direct (db_dbpath ?s) (input_id \<lparr>input_id = 1, output_id = 3\<rparr>)
             (output_id \<lparr>input_id = 1, output_id = 3\<rparr>)"
    by (simp add: fire_def stmt_defs Let_def)
  from delete_absent_noop [OF h, of "\<lparr>input_id = 1, output_id = 3\<rparr>"] h
  show ?thesis by (simp add: fire_def [of TG_DELETE])
qed

subsection \<open>Updates of a link row\<close>

text \<open>
  Claim C10. The trigger also fires on \<open>UPDATE\<close>, but then neither branch applies: for
  every updated link row, old and new, the trigger reaches its final return and the
  closure table and the sequence are unchanged.
\<close>

theorem update_is_noop: "update_tc TG_UPDATE new old s = (Return_end, s)"
  by (simp add: update_tc_def)

subsection \<open>The chain of three links\<close>

lemma chain_db_rows:
  assumes "distinct [a, b, c, d]"
  shows "chain_db a b c d = \<lparr>db_dbpath =
    [\<lparr>row_id = 1, parent_id = a, child_id = b, depth = 0,
        entry_edge_id = Some 1, direct_edge_id = Some 1, exit_edge_id = Some 1\<rparr>,
     \<lparr>row_id = 2, parent_id = b, child_id = c, depth = 0,
        entry_edge_id = Some 2, direct_edge_id = Some 2, exit_edge_id = Some 2\<rparr>,
     \<lparr>row_id = 3, parent_id = a, child_id = c, depth = 1,
        entry_edge_id = Some 1, direct_edge_id = Some 2, exit_edge_id = Some 2\<rparr>,
     \<lparr>row_id = 4, parent_id = c, child_id = d, depth = 0,
        entry_edge_id = Some 4, direct_edge_id = Some 4, exit_edge_id = Some 4\<rparr>,
     \<lparr>row_id = 5, parent_id = b, child_id = d, depth = 1,
        entry_edge_id = Some 2, direct_edge_id = Some 4, exit_edge_id = Some 4\<rparr>,
     \<lparr>row_id = 6, parent_id = a, child_id = d, depth = 2,
        entry_edge_id = Some 3, direct_edge_id = Some 4, exit_edge_id = Some 4\<rparr>],
    dbpath_seq = 6\<rparr>"
  using assms by (simp add: chain_db_def fire_def stmt_defs Let_def)

lemma chain_db_delete_rows:
  assumes "distinct [a, b, c, d]"
  shows "fire TG_DELETE b c (chain_db a b c d) = \<lparr>db_dbpath =
    [\<lparr>row_id = 1, parent_id = a, child_id = b, depth = 0,
        entry_edge_id = Some 1, direct_edge_id = Some 1, exit_edge_id = Some 1\<rparr>,
     \<lparr>row_id = 4, parent_id = c, child_id = d, depth = 0,
        entry_edge_id = Some 4, direct_edge_id = Some 4, exit_edge_id = Some 4\<rparr>],
    dbpath_seq = 6\<rparr>"
  using assms unfolding chain_db_rows [OF assms]
  by (simp add: fire_def stmt_defs purge_loop.simps Let_def)

lemma chain_db_reinsert_rows:
  assumes "distinct [a, b, c, d]"
  shows "fire TG_INSERT b c (fire TG_DELETE b c (chain_db a b c d)) = \<lparr>db_dbpath =
    [\<lparr>row_id = 1, parent_id = a, child_id = b, depth = 0,
        entry_edge_id = Some 1, direct_edge_id = Some 1, exit_edge_id = Some 1\<rparr>,
     \<lparr>row_id = 4, parent_id = c, child_id = d, depth = 0,
        entry_edge_id = Some 4, direct_edge_id = Some 4, exit_edge_id = Some 4\<rparr>,
     \<lparr>row_id = 7, parent_id = b, child_id = c, depth = 0,
        entry_edge_id = Some 7, direct_edge_id = Some 7, exit_edge_id = Some 7\<rparr>,
     \<lparr>row_id = 8, parent_id = a, child_id = c, depth = 1,
        entry_edge_id = Some 1, direct_edge_id = Some 7, exit_edge_id = Some 7\<rparr>,
     \<lparr>row_id = 9, parent_id = b, child_id = d, depth = 1,
        entry_edge_id = Some 7, direct_edge_id = Some 7, exit_edge_id = Some 4\<rparr>,
     \<lparr>row_id = 10, parent_id = a, child_id = d, depth = 2,
        entry_edge_id = Some 1, direct_edge_id = Some 7, exit_edge_id = Some 4\<rparr>],
    dbpath_seq = 10\<rparr>"
  using assms unfolding chain_db_delete_rows [OF assms]
  by (simp add: fire_def stmt_defs Let_def)

text \<open>
  Claim C5. For distinct nodes \<open>a\<close>, \<open>b\<close>, \<open>c\<close>: inserting the link \<open>(a, b)\<close> and then
  the link \<open>(b, c)\<close> into the empty table leaves exactly three rows, the depth-0 rows of
  \<open>(a, b)\<close> and \<open>(b, c)\<close> and a row with parent \<open>a\<close>, child \<open>c\<close> and depth 1, whose
  entry edge is the row of \<open>(a, b)\<close> and whose direct and exit edge is the row of
  \<open>(b, c)\<close>.
\<close>

theorem two_link_chain_complete:
  assumes "a \<noteq> b" and "b \<noteq> c" and "a \<noteq> c"
  shows "db_dbpath (fire TG_INSERT b c (fire TG_INSERT a b empty_db)) =
    [\<lparr>row_id = 1, parent_id = a, child_id = b, depth = 0,
        entry_edge_id = Some 1, direct_edge_id = Some 1, exit_edge_id = Some 1\<rparr>,
     \<lparr>row_id = 2, parent_id = b, child_id = c, depth = 0,
        entry_edge_id = Some 2, direct_edge_id = Some 2, exit_edge_id = Some 2\<rparr>,
     \<lparr>row_id = 3, parent_id = a, child_id = c, depth = 1,
        entry_edge_id = Some 1, direct_edge_id = Some 2, exit_edge_id = Some 2\<rparr>]"
  using assms by (simp add: fire_def stmt_defs Let_def)

theorem two_link_chain_complete_witness:
  "map path_of (db_dbpath (fire TG_INSERT 2 3 (fire TG_INSERT 1 2 empty_db)))
     = [(1, 2, 0), (2, 3, 0), (1, 3, 1)]"
proof -
  have "(1::int) \<noteq> 2" and "(2::int) \<noteq> 3" and "(1::int) \<noteq> 3" by simp_all
  from two_link_chain_complete [OF this] show ?thesis
    by (simp add: path_of_def)
qed

text \<open>
  Claim C4. For distinct nodes \<open>a\<close>, \<open>b\<close>, \<open>c\<close>, \<open>d\<close>: the chain built from the empty
  table holds six rows, three of depth 0, two of depth 1 and one of depth 2. Deleting
  the link \<open>(b, c)\<close> removes the rows of \<open>(b, c)\<close>, \<open>(a, c)\<close>, \<open>(b, d)\<close> and \<open>(a, d)\<close>
  and nothing else: what is left is exactly the two depth-0 rows of \<open>(a, b)\<close> and
  \<open>(c, d)\<close>, unchanged.
\<close>

theorem chain_delete_cascades:
  assumes "distinct [a, b, c, d]"
  shows "map path_of (db_dbpath (chain_db a b c d))
           = [(a, b, 0), (b, c, 0), (a, c, 1), (c, d, 0), (b, d, 1), (a, d, 2)]
         \<and> db_dbpath (fire TG_DELETE b c (chain_db a b c d))
           = filter (\<lambda>r. path_of r \<notin> {(b, c, 0), (a, c, 1), (b, d, 1), (a, d, 2)})
               (db_dbpath (chain_db a b c d))
         \<and> map path_of (db_dbpath (fire TG_DELETE b c (chain_db a b c d)))
           = [(a, b, 0), (c, d, 0)]"
  unfolding chain_db_delete_rows [OF assms]
  unfolding chain_db_rows [OF assms]
  using assms by (simp add: path_of_def)

theorem chain_delete_cascades_witness:
  "map path_of (db_dbpath (fire TG_DELETE 2 3 (chain_db 1 2 3 4))) = [(1, 2, 0), (3, 4, 0)]"
proof -
  have "distinct [1, 2, 3, 4 :: int]" by simp
  from chain_delete_cascades [OF this] show ?thesis by blast
qed

text \<open>
  Claim C8, as stated, fails. After deleting and reinserting the link \<open>(2, 3)\<close> of the
  chain \<open>1 \<rightarrow> 2 \<rightarrow> 3 \<rightarrow> 4\<close> no renaming of identifiers turns the original table into the
  new one: the original row of \<open>(2, 4)\<close> cites the row of \<open>(3, 4)\<close> as its direct edge and
  the row of \<open>(2, 3)\<close> as its entry edge, the new row of \<open>(2, 4)\<close> cites the row of
  \<open>(2, 3)\<close> as both.
\<close>

theorem reinsert_not_same_up_to_ids:
  "\<not> same_up_to_ids (db_dbpath (chain_db 1 2 3 4))
       (db_dbpath (fire TG_INSERT 2 3 (fire TG_DELETE 2 3 (chain_db 1 2 3 4))))"
proof
  have d: "distinct [1, 2, 3, 4 :: int]" by simp
  assume "same_up_to_ids (db_dbpath (chain_db 1 2 3 4))
       (db_dbpath (fire TG_INSERT 2 3 (fire TG_DELETE 2 3 (chain_db 1 2 3 4))))"
  then obtain f where
    "mset (map (rename_row f) (db_dbpath (chain_db 1 2 3 4)))
     = mset (db_dbpath (fire TG_INSERT 2 3 (fire TG_DELETE 2 3 (chain_db 1 2 3 4))))"
    unfolding same_up_to_ids_def by blast
  then have eq: "set (map (rename_row f) (db_dbpath (chain_db 1 2 3 4)))
     = set (db_dbpath (fire TG_INSERT 2 3 (fire TG_DELETE 2 3 (chain_db 1 2 3 4))))"
    by (rule mset_eq_setD)
  have "rename_row f \<lparr>row_id = 5, parent_id = 2, child_id = 4, depth = 1,
        entry_edge_id = Some 2, direct_edge_id = Some 4, exit_edge_id = Some 4\<rparr>
      \<in> set (map (rename_row f) (db_dbpath (chain_db 1 2 3 4)))"
    unfolding chain_db_rows [OF d] by simp
  then have "f 2 = 7 \<and> f 4 = 7"
    unfolding eq chain_db_reinsert_rows [OF d] by (simp add: rename_row_def)
  moreover have "rename_row f \<lparr>row_id = 4, parent_id = 3, child_id = 4, depth = 0,
        entry_edge_id = Some 4, direct_edge_id = Some 4, exit_edge_id = Some 4\<rparr>
      \<in> set (map (rename_row f) (db_dbpath (chain_db 1 2 3 4)))"
    unfolding chain_db_rows [OF d] by simp
  then have "f 4 = 4"
    unfolding eq chain_db_reinsert_rows [OF d] by (simp add: rename_row_def)
  ultimately show False by simp
qed

text \<open>
  Claim C8, amended. For distinct nodes \<open>a\<close>, \<open>b\<close>, \<open>c\<close>, \<open>d\<close>: deleting the link
  \<open>(b, c)\<close> from the chain and inserting it again gives six rows that certify the same
  multiset of (parent, child, depth) triples as the original six; no row of the deleted
  link's lineage is left over (the four new rows carry fresh identifiers and the two
  surviving rows are the original ones) and none is missing.
\<close>

theorem reinsert_same_paths:
  assumes "distinct [a, b, c, d]"
  shows "mset (map path_of (db_dbpath (fire TG_INSERT b c (fire TG_DELETE b c (chain_db a b c d)))))
           = mset (map path_of (db_dbpath (chain_db a b c d)))
         \<and> length (db_dbpath (fire TG_INSERT b c (fire TG_DELETE b c (chain_db a b c d)))) = 6
         \<and> filter (\<lambda>r. row_id r \<le> dbpath_seq (chain_db a b c d))
              (db_dbpath (fire TG_INSERT b c (fire TG_DELETE b c (chain_db a b c d))))
           = db_dbpath (fire TG_DELETE b c (chain_db a b c d))"
  unfolding chain_db_reinsert_rows [OF assms]
  unfolding chain_db_delete_rows [OF assms]
  unfolding chain_db_rows [OF assms]
  by (simp add: path_of_def)

theorem reinsert_same_paths_witness:
  "mset (map path_of (db_dbpath (fire TG_INSERT 2 3 (fire TG_DELETE 2 3 (chain_db 1 2 3 4)))))
     = mset (map path_of (db_dbpath (chain_db 1 2 3 4)))"
proof -
  have "distinct [1, 2, 3, 4 :: int]" by simp
  from reinsert_same_paths [OF this] show ?thesis by blast
qed

subsection \<open>The purge loop\<close>

lemma purge_scan_fresh: "set (purge_scan t pl) \<inter> set pl = {}"
  unfolding purge_scan_def by auto

lemma purge_scan_rows: "set (purge_scan t pl) \<subseteq> row_id ` {r \<in> set t. 0 < depth r}"
  unfolding purge_scan_def by auto

lemma purge_loop_grows: "set pl \<subseteq> set (purge_loop t pl)"
proof (induction t pl rule: purge_loop.induct)
  case (1 t pl)
  show ?case
  proof (cases "purge_scan t pl = []")
    case True
    then show ?thesis by (simp add: purge_loop.simps [of t pl])
  next
    case False
    with "1" have "set (pl @ purge_scan t pl) \<subseteq> set (purge_loop t (pl @ purge_scan t pl))"
      by simp
    with False show ?thesis by (simp add: purge_loop.simps [of t pl] Let_def)
  qed
qed

lemma purge_loop_rows:
  "set (purge_loop t pl) \<subseteq> set pl \<union> row_id ` {r \<in> set t. 0 < depth r}"
proof (induction t pl rule: purge_loop.induct)
  case (1 t pl)
  show ?case
  proof (cases "purge_scan t pl = []")
    case True
    then show ?thesis by (simp add: purge_loop.simps [of t pl])
  next
    case False
    with "1" have "set (purge_loop t (pl @ purge_scan t pl))
        \<subseteq> set (pl @ purge_scan t pl) \<union> row_id ` {r \<in> set t. 0 < depth r}"
      by simp
    with False purge_scan_rows [of t pl] show ?thesis
      by (simp add: purge_loop.simps [of t pl] Let_def) blast
  qed
qed

lemma purge_loop_fixed: "purge_scan t (purge_loop t pl) = []"
proof (induction t pl rule: purge_loop.induct)
  case (1 t pl)
  show ?case
  proof (cases "purge_scan t pl = []")
    case True
    then show ?thesis by (simp add: purge_loop.simps [of t pl])
  next
    case False
    with "1" show ?thesis by (simp add: purge_loop.simps [of t pl] Let_def)
  qed
qed

lemma purge_loop_closed:
  assumes "r \<in> set t" and "0 < depth r"
    and "in_purge (entry_edge_id r) (purge_loop t pl)
         \<or> in_purge (direct_edge_id r) (purge_loop t pl)
         \<or> in_purge (exit_edge_id r) (purge_loop t pl)"
  shows "row_id r \<in> set (purge_loop t pl)"
proof (rule ccontr)
  assume "row_id r \<notin> set (purge_loop t pl)"
  with assms have "row_id r \<in> set (purge_scan t (purge_loop t pl))"
    unfolding purge_scan_def by auto
  then show False by (simp add: purge_loop_fixed)
qed

lemma purge_iterations_bound:
  "purge_iterations t pl \<le> length (filter (\<lambda>r. row_id r \<notin> set pl) t) + 1"
proof (induction t pl rule: purge_iterations.induct)
  case (1 t pl)
  show ?case
  proof (cases "purge_scan t pl = []")
    case True
    then show ?thesis by (simp add: purge_iterations.simps [of t pl])
  next
    case False
    with "1" have "purge_iterations t (pl @ purge_scan t pl)
        \<le> length (filter (\<lambda>r. row_id r \<notin> set (pl @ purge_scan t pl)) t) + 1"
      by simp
    with purge_scan_measure [OF False] False show ?thesis
      by (simp add: purge_iterations.simps [of t pl] Let_def)
  qed
qed

lemma purge_seed_rows: "set (purge_seed t old) \<subseteq> row_id ` set t"
  unfolding purge_seed_def by auto

lemma purge_seed_measure:
  assumes "exists_direct t (input_id old) (output_id old)"
  shows "length (filter (\<lambda>r. row_id r \<notin> set (purge_seed t old)) t) < length t"
proof -
  from assms obtain r where r: "r \<in> set t" "parent_id r = input_id old"
      "child_id r = output_id old" "depth r = 0"
    by (auto simp: exists_direct_iff)
  then have "row_id r \<in> set (purge_seed t old)"
    unfolding purge_seed_def by auto
  with r(1) show ?thesis
    by (intro length_filter_less [of r]) auto
qed

text \<open>
  Claim C7. The loop is a total function of the table and the purge list (its
  termination is proved with the number of rows whose id is not yet in the purge list as
  the measure). For every table and purge list, a scan returns only ids that are not in
  the purge list, and the purge list the loop returns contains the one it started from
  and is closed: a further scan finds nothing. When the delete branch reaches the loop,
  that is when a depth-0 row of the deleted link exists, the final purge list holds
  only ids of rows of the table, so at most as many ids as the table has rows, and the
  loop body has run at most as many times as the table has rows.
\<close>

theorem purge_loop_terminates_bounded:
  assumes "exists_direct t (input_id old) (output_id old)"
  shows "set (purge_scan t pl) \<inter> set pl = {}
       \<and> set pl \<subseteq> set (purge_loop t pl)
       \<and> purge_scan t (purge_loop t pl) = []
       \<and> set (purge_loop t (purge_seed t old)) \<subseteq> row_id ` set t
       \<and> card (set (purge_loop t (purge_seed t old))) \<le> length t
       \<and> purge_iterations t (purge_seed t old) \<le> length t"
proof -
  have sub: "set (purge_loop t (purge_seed t old)) \<subseteq> row_id ` set t"
    using purge_loop_rows [of t "purge_seed t old"] purge_seed_rows [of t old] by blast
  have "card (set (purge_loop t (purge_seed t old))) \<le> card (row_id ` set t)"
    using sub by (simp add: card_mono)
  also have "\<dots> \<le> card (set t)" by (simp add: card_image_le)
  also have "\<dots> \<le> length t" by (rule card_length)
  finally have crd: "card (set (purge_loop t (purge_seed t old))) \<le> length t" .
  have its: "purge_iterations t (purge_seed t old) \<le> length t"
    using purge_iterations_bound [of t "purge_seed t old"] purge_seed_measure [OF assms]
    by linarith
  from purge_scan_fresh purge_loop_grows purge_loop_fixed sub crd its
  show ?thesis by blast
qed

text \<open>On the chain \<open>1 \<rightarrow> 2 \<rightarrow> 3 \<rightarrow> 4\<close> the deletion of \<open>(2, 3)\<close> runs the loop body three
  times and purges four of the six rows.\<close>

theorem purge_loop_terminates_bounded_witness:
  "exists_direct (db_dbpath (chain_db 1 2 3 4)) 2 3
   \<and> purge_loop (db_dbpath (chain_db 1 2 3 4))
        (purge_seed (db_dbpath (chain_db 1 2 3 4)) \<lparr>input_id = 2, output_id = 3\<rparr>)
      = [2, 3, 5, 6]
   \<and> purge_iterations (db_dbpath (chain_db 1 2 3 4))
        (purge_seed (db_dbpath (chain_db 1 2 3 4)) \<lparr>input_id = 2, output_id = 3\<rparr>) = 3
   \<and> purge_iterations (db_dbpath (chain_db 1 2 3 4))
        (purge_seed (db_dbpath (chain_db 1 2 3 4)) \<lparr>input_id = 2, output_id = 3\<rparr>)
      \<le> length (db_dbpath (chain_db 1 2 3 4))"
proof -
  have d: "distinct [1, 2, 3, 4 :: int]" by simp
  have h: "exists_direct (db_dbpath (chain_db 1 2 3 4))
             (input_id \<lparr>input_id = 2, output_id = 3\<rparr>) (output_id \<lparr>input_id = 2, output_id = 3\<rparr>)"
    unfolding chain_db_rows [OF d] by (simp add: exists_direct_def)
  have l: "purge_loop (db_dbpath (chain_db 1 2 3 4))
        (purge_seed (db_dbpath (chain_db 1 2 3 4)) \<lparr>input_id = 2, output_id = 3\<rparr>)
      = [2, 3, 5, 6]"
    unfolding chain_db_rows [OF d]
    by (simp add: purge_seed_def purge_scan_def in_purge_def purge_loop.simps Let_def)
  have i: "purge_iterations (db_dbpath (chain_db 1 2 3 4))
        (purge_seed (db_dbpath (chain_db 1 2 3 4)) \<lparr>input_id = 2, output_id = 3\<rparr>) = 3"
    unfolding chain_db_rows [OF d]
    by (simp add: purge_seed_def purge_scan_def in_purge_def purge_iterations.simps Let_def)
  from purge_loop_terminates_bounded [OF h] h l i show ?thesis by simp
qed

subsection \<open>Deletion keeps the other depth-0 rows\<close>

text \<open>
  Claim C9. In a table whose ids are distinct, the delete branch for a link \<open>old\<close> keeps
  every depth-0 row that is not a row of \<open>(input, output)\<close> of \<open>old\<close>: the purge list
  is seeded with depth-0 rows of that pair only, and the scan adds only rows of depth
  above 0.
\<close>

theorem delete_keeps_other_direct_rows:
  assumes "distinct (map row_id (db_dbpath s))"
    and "r \<in> set (db_dbpath s)"
    and "depth r = 0"
    and "\<not> (parent_id r = input_id old \<and> child_id r = output_id old)"
  shows "r \<in> set (db_dbpath (snd (on_delete old s)))"
proof (cases "exists_direct (db_dbpath s) (input_id old) (output_id old)")
  case False
  with assms(2) show ?thesis by (simp add: on_delete_def)
next
  case True
  let ?t = "db_dbpath s"
  have inj: "inj_on row_id (set ?t)"
    using assms(1) by (simp add: distinct_map)
  have "row_id r \<notin> set (purge_loop ?t (purge_seed ?t old))"
  proof
    assume "row_id r \<in> set (purge_loop ?t (purge_seed ?t old))"
    with purge_loop_rows [of ?t "purge_seed ?t old"]
    consider "row_id r \<in> set (purge_seed ?t old)"
      | "row_id r \<in> row_id ` {q \<in> set ?t. 0 < depth q}"
      by blast
    then show False
    proof cases
      case 1
      then obtain q where "q \<in> set ?t" "row_id q = row_id r"
          "parent_id q = input_id old \<and> child_id q = output_id old"
        unfolding purge_seed_def by auto
      with inj assms(2) have "q = r" by (auto dest: inj_onD)
      with \<open>parent_id q = input_id old \<and> child_id q = output_id old\<close> assms(4)
      show False by simp
    next
      case 2
      then obtain q where "q \<in> set ?t" "row_id q = row_id r" "0 < depth q"
        by auto
      with inj assms(2) have "q = r" by (auto dest: inj_onD)
      with \<open>0 < depth q\<close> assms(3) show False by simp
    qed
  qed
  with True assms(2) show ?thesis
    by (simp add: on_delete_def Let_def)
qed

text \<open>In the chain \<open>1 \<rightarrow> 2 \<rightarrow> 3 \<rightarrow> 4\<close> the depth-0 row of \<open>(3, 4)\<close> is cited by two of the
  purged rows and survives the deletion of \<open>(2, 3)\<close>.\<close>

theorem delete_keeps_other_direct_rows_witness:
  "\<lparr>row_id = 4, parent_id = 3, child_id = 4, depth = 0,
     entry_edge_id = Some 4, direct_edge_id = Some 4, exit_edge_id = Some 4\<rparr>
   \<in> set (db_dbpath (snd (on_delete \<lparr>input_id = 2, output_id = 3\<rparr> (chain_db 1 2 3 4))))"
proof -
  have d: "distinct [1, 2, 3, 4 :: int]" by simp
  show ?thesis
    by (rule delete_keeps_other_direct_rows)
       (simp_all add: chain_db_rows [OF d])
qed

subsection \<open>The invariant\<close>

lemma justified_mono:
  assumes "justified t r" and "set t \<subseteq> set t'"
  shows "justified t' r"
proof -
  from assms(1) obtain d where d: "d \<in> set t" "depth d = 0"
      "direct_edge_id r = Some (row_id d)"
      "entry_edge_id r = Some (row_id d) \<and> parent_id r = parent_id d
       \<or> (\<exists>e\<in>set t. entry_edge_id r = Some (row_id e) \<and> depth e < depth r
             \<and> parent_id e = parent_id r \<and> child_id e = parent_id d)"
      "exit_edge_id r = Some (row_id d) \<and> child_id r = child_id d
       \<or> (\<exists>f\<in>set t. exit_edge_id r = Some (row_id f) \<and> depth f < depth r
             \<and> parent_id f = child_id d \<and> child_id f = child_id r)"
    unfolding justified_def by blast
  from d(4) assms(2) have en:
      "entry_edge_id r = Some (row_id d) \<and> parent_id r = parent_id d
       \<or> (\<exists>e\<in>set t'. entry_edge_id r = Some (row_id e) \<and> depth e < depth r
             \<and> parent_id e = parent_id r \<and> child_id e = parent_id d)"
    by blast
  from d(5) assms(2) have ex:
      "exit_edge_id r = Some (row_id d) \<and> child_id r = child_id d
       \<or> (\<exists>f\<in>set t'. exit_edge_id r = Some (row_id f) \<and> depth f < depth r
             \<and> parent_id f = child_id d \<and> child_id f = child_id r)"
    by blast
  from d(1) assms(2) have "d \<in> set t'" by blast
  with d(2,3) en ex show ?thesis unfolding justified_def by blast
qed

lemma justified_any_id:
  "justified t (new_path_row n v) = justified t (new_path_row m v)"
  by (cases v) (simp add: justified_def)

lemma depth_any_id: "depth (new_path_row n v) = depth (new_path_row m v)"
  by (cases v) simp

lemma tc_inv_insert_row:
  assumes inv: "tc_inv ls s"
    and pos: "0 < depth (new_path_row 0 v)"
    and jus: "justified (db_dbpath s) (new_path_row 0 v)"
  shows "tc_inv ls (insert_row v s)"
proof -
  let ?k = "dbpath_seq s + 1"
  let ?n = "new_path_row ?k v"
  have id_n: "row_id ?n = ?k" by (cases v) simp
  have pos': "0 < depth ?n" using pos depth_any_id [of 0 v ?k] by simp
  have jus': "justified (db_dbpath s @ [?n]) ?n"
    using jus justified_any_id [of "db_dbpath s" 0 v ?k]
    by (auto intro: justified_mono)
  from inv have old:
      "distinct (map row_id (db_dbpath s))"
      "\<forall>r\<in>set (db_dbpath s). row_id r \<le> dbpath_seq s"
      "\<forall>r\<in>set (db_dbpath s). 0 \<le> depth r"
      "\<forall>r\<in>set (db_dbpath s). depth r = 0 \<longrightarrow> (parent_id r, child_id r) \<in> set ls"
      "\<forall>r\<in>set (db_dbpath s). 0 < depth r \<longrightarrow> justified (db_dbpath s) r"
    unfolding tc_inv_def by blast+
  have 1: "distinct (map row_id (db_dbpath (insert_row v s)))"
    using old(1,2) id_n by auto
  have 2: "\<forall>r\<in>set (db_dbpath (insert_row v s)). row_id r \<le> dbpath_seq (insert_row v s)"
    using old(2) id_n by auto
  have 3: "\<forall>r\<in>set (db_dbpath (insert_row v s)). 0 \<le> depth r"
    using old(3) pos' by auto
  have 4: "\<forall>r\<in>set (db_dbpath (insert_row v s)).
             depth r = 0 \<longrightarrow> (parent_id r, child_id r) \<in> set ls"
    using old(4) pos' by auto
  have 5: "\<forall>r\<in>set (db_dbpath (insert_row v s)).
             0 < depth r \<longrightarrow> justified (db_dbpath (insert_row v s)) r"
  proof (intro ballI impI)
    fix r assume r: "r \<in> set (db_dbpath (insert_row v s))" "0 < depth r"
    show "justified (db_dbpath (insert_row v s)) r"
    proof (cases "r = ?n")
      case True
      with jus' show ?thesis by simp
    next
      case False
      with r old(5) have "justified (db_dbpath s) r" by auto
      then show ?thesis by (rule justified_mono) auto
    qed
  qed
  from 1 2 3 4 5 show ?thesis unfolding tc_inv_def by blast
qed

lemma tc_inv_insert_rows:
  assumes "tc_inv ls s"
    and "\<forall>v\<in>set vs. 0 < depth (new_path_row 0 v) \<and> justified (db_dbpath s) (new_path_row 0 v)"
  shows "tc_inv ls (insert_rows vs s)"
  using assms
proof (induction vs arbitrary: s)
  case Nil
  then show ?case by simp
next
  case (Cons v vs)
  from Cons.prems have "tc_inv ls (insert_row v s)"
    by (intro tc_inv_insert_row) auto
  moreover have "\<forall>w\<in>set vs. 0 < depth (new_path_row 0 w)
                   \<and> justified (db_dbpath (insert_row v s)) (new_path_row 0 w)"
  proof
    fix w assume "w \<in> set vs"
    with Cons.prems(2) have "0 < depth (new_path_row 0 w)"
        "justified (db_dbpath s) (new_path_row 0 w)" by auto
    moreover have "set (db_dbpath s) \<subseteq> set (db_dbpath (insert_row v s))" by auto
    ultimately show "0 < depth (new_path_row 0 w)
                   \<and> justified (db_dbpath (insert_row v s)) (new_path_row 0 w)"
      by (blast intro: justified_mono)
  qed
  ultimately show ?case using Cons.IH by simp
qed

lemma insert_rows_keeps: "set (db_dbpath s) \<subseteq> set (db_dbpath (insert_rows vs s))"
  using insert_rows_appends [of vs s] by auto

text \<open>The depth-0 row of the new link, once its edge columns are filled in.\<close>

lemma update_edges_other:
  assumes "\<forall>r\<in>set t. row_id r \<noteq> n"
  shows "map (\<lambda>r. if row_id r = n
               then r\<lparr>entry_edge_id := Some n, exit_edge_id := Some n,
                      direct_edge_id := Some n\<rparr>
               else r) t = t"
  using assms by (induction t) auto

lemma direct_row_inserted:
  assumes "\<forall>r\<in>set (db_dbpath s). row_id r \<le> dbpath_seq s"
  shows "db_dbpath (update_edges (dbpath_seq s + 1) (insert_row (None, None, None, i, out, 0) s))
         = db_dbpath s @ [new_path_row (dbpath_seq s + 1)
             (Some (dbpath_seq s + 1), Some (dbpath_seq s + 1), Some (dbpath_seq s + 1), i, out, 0)]"
proof -
  have "\<forall>r\<in>set (db_dbpath s). row_id r \<noteq> dbpath_seq s + 1"
    using assms by fastforce
  then show ?thesis
    by (simp add: update_edges_other)
qed

lemma tc_inv_direct_row:
  assumes inv: "tc_inv ls s"
  shows "tc_inv (ls @ [(i, out)])
           (update_edges (dbpath_seq s + 1) (insert_row (None, None, None, i, out, 0) s))"
proof -
  let ?k = "dbpath_seq s + 1"
  let ?s2 = "update_edges ?k (insert_row (None, None, None, i, out, 0) s)"
  let ?d = "new_path_row ?k (Some ?k, Some ?k, Some ?k, i, out, 0)"
  from inv have old:
      "distinct (map row_id (db_dbpath s))"
      "\<forall>r\<in>set (db_dbpath s). row_id r \<le> dbpath_seq s"
      "\<forall>r\<in>set (db_dbpath s). 0 \<le> depth r"
      "\<forall>r\<in>set (db_dbpath s). depth r = 0 \<longrightarrow> (parent_id r, child_id r) \<in> set ls"
      "\<forall>r\<in>set (db_dbpath s). 0 < depth r \<longrightarrow> justified (db_dbpath s) r"
    unfolding tc_inv_def by blast+
  have t2: "db_dbpath ?s2 = db_dbpath s @ [?d]"
    using direct_row_inserted [OF old(2)] .
  have sq: "dbpath_seq ?s2 = ?k" by simp
  have 1: "distinct (map row_id (db_dbpath ?s2))"
    unfolding t2 using old(1,2) by auto
  have 2: "\<forall>r\<in>set (db_dbpath ?s2). row_id r \<le> dbpath_seq ?s2"
    unfolding t2 sq using old(2) by auto
  have 3: "\<forall>r\<in>set (db_dbpath ?s2). 0 \<le> depth r"
    unfolding t2 using old(3) by auto
  have 4: "\<forall>r\<in>set (db_dbpath ?s2).
             depth r = 0 \<longrightarrow> (parent_id r, child_id r) \<in> set (ls @ [(i, out)])"
    unfolding t2 using old(4) by auto
  have 5: "\<forall>r\<in>set (db_dbpath ?s2). 0 < depth r \<longrightarrow> justified (db_dbpath ?s2) r"
  proof (intro ballI impI)
    fix r assume r: "r \<in> set (db_dbpath ?s2)" "0 < depth r"
    then have "r \<in> set (db_dbpath s)" unfolding t2 by auto
    with r(2) old(5) have "justified (db_dbpath s) r" by blast
    then show "justified (db_dbpath ?s2) r"
      unfolding t2 by (rule justified_mono) auto
  qed
  from 1 2 3 4 5 show ?thesis unfolding tc_inv_def by blast
qed

text \<open>The rows of the three queries are justified in the table they are read from, as
  soon as that table holds the depth-0 row of the new link.\<close>

lemma sel_into_input_justified:
  assumes d: "d \<in> set t" "row_id d = k" "depth d = 0"
      "parent_id d = input_id new" "child_id d = output_id new"
    and nonneg: "\<forall>r\<in>set t. 0 \<le> depth r"
    and v: "v \<in> set (sel_into_input t new k)"
  shows "0 < depth (new_path_row 0 v) \<and> justified t (new_path_row 0 v)"
proof -
  from v obtain e where e: "e \<in> set t" "child_id e = input_id new"
      "v = (Some (row_id e), Some k, Some k, parent_id e, output_id new, depth e + 1)"
    unfolding sel_into_input_def by auto
  from e(1) nonneg have "0 \<le> depth e" by blast
  then have "0 < depth (new_path_row 0 v)" by (simp add: e(3))
  moreover have "justified t (new_path_row 0 v)"
    unfolding justified_def
    by (rule bexI [OF _ d(1)]) (use d e in \<open>auto simp: e(3)\<close>)
  ultimately show ?thesis ..
qed

lemma sel_from_output_justified:
  assumes d: "d \<in> set t" "row_id d = k" "depth d = 0"
      "parent_id d = input_id new" "child_id d = output_id new"
    and nonneg: "\<forall>r\<in>set t. 0 \<le> depth r"
    and v: "v \<in> set (sel_from_output t new k)"
  shows "0 < depth (new_path_row 0 v) \<and> justified t (new_path_row 0 v)"
proof -
  from v obtain f where f: "f \<in> set t" "parent_id f = output_id new"
      "v = (Some k, Some k, Some (row_id f), input_id new, child_id f, depth f + 1)"
    unfolding sel_from_output_def by auto
  from f(1) nonneg have "0 \<le> depth f" by blast
  then have "0 < depth (new_path_row 0 v)" by (simp add: f(3))
  moreover have "justified t (new_path_row 0 v)"
    unfolding justified_def
    by (rule bexI [OF _ d(1)]) (use d f in \<open>auto simp: f(3)\<close>)
  ultimately show ?thesis ..
qed

lemma sel_cross_justified:
  assumes d: "d \<in> set t" "row_id d = k" "depth d = 0"
      "parent_id d = input_id new" "child_id d = output_id new"
    and nonneg: "\<forall>r\<in>set t. 0 \<le> depth r"
    and v: "v \<in> set (sel_cross t new k)"
  shows "0 < depth (new_path_row 0 v) \<and> justified t (new_path_row 0 v)"
proof -
  from v obtain e f where ef: "e \<in> set t" "child_id e = input_id new"
      "f \<in> set t" "parent_id f = output_id new"
      "v = (Some (row_id e), Some k, Some (row_id f), parent_id e, child_id f,
            depth e + depth f + 2)"
    unfolding sel_cross_def by auto
  from ef(1,3) nonneg have nn: "0 \<le> depth e" "0 \<le> depth f" by blast+
  then have "0 < depth (new_path_row 0 v)" by (simp add: ef(5))
  moreover have "justified t (new_path_row 0 v)"
    unfolding justified_def
    by (rule bexI [OF _ d(1)]) (use d ef nn in \<open>auto simp: ef(5)\<close>)
  ultimately show ?thesis ..
qed

lemma tc_inv_on_insert:
  assumes inv: "tc_inv ls s" and acc: "fst (on_insert new s) = Return_end"
  shows "tc_inv (ls @ [(input_id new, output_id new)]) (snd (on_insert new s))"
proof -
  let ?i = "input_id new" and ?o = "output_id new"
  let ?k = "dbpath_seq s + 1"
  let ?ls = "ls @ [(?i, ?o)]"
  let ?d = "new_path_row ?k (Some ?k, Some ?k, Some ?k, ?i, ?o, 0)"
  define s2 where "s2 = update_edges ?k (insert_row (None, None, None, ?i, ?o, 0) s)"
  define s3 where "s3 = insert_rows (sel_into_input (db_dbpath s2) new ?k) s2"
  define s4 where "s4 = insert_rows (sel_from_output (db_dbpath s3) new ?k) s3"
  define s5 where "s5 = insert_rows (sel_cross (db_dbpath s4) new ?k) s4"
  from acc have guard: "\<not> exists_direct (db_dbpath s) ?i ?o"
      "\<not> (?i = ?o \<or> exists_path (db_dbpath s) ?o ?i)"
    by (auto simp: on_insert_def split: if_splits)
  have res: "snd (on_insert new s) = s5"
    unfolding on_insert_def Let_def s5_def s4_def s3_def s2_def dbpath_seq_insert_row
    by (simp only: guard if_False snd_conv)
  from inv have ids: "\<forall>r\<in>set (db_dbpath s). row_id r \<le> dbpath_seq s"
    unfolding tc_inv_def by blast
  have d_props: "row_id ?d = ?k" "depth ?d = 0" "parent_id ?d = ?i" "child_id ?d = ?o"
    by simp_all
  have d2: "?d \<in> set (db_dbpath s2)"
    unfolding s2_def direct_row_inserted [OF ids] by simp
  have inv2: "tc_inv ?ls s2"
    unfolding s2_def using inv by (rule tc_inv_direct_row)
  have nonneg: "tc_inv ?ls x \<Longrightarrow> \<forall>r\<in>set (db_dbpath x). 0 \<le> depth r" for x
    unfolding tc_inv_def by blast
  have inv3: "tc_inv ?ls s3"
    unfolding s3_def using inv2
  proof (rule tc_inv_insert_rows)
    show "\<forall>v\<in>set (sel_into_input (db_dbpath s2) new ?k).
            0 < depth (new_path_row 0 v) \<and> justified (db_dbpath s2) (new_path_row 0 v)"
      using sel_into_input_justified [OF d2 d_props nonneg [OF inv2]] by blast
  qed
  have d3: "?d \<in> set (db_dbpath s3)"
    unfolding s3_def using d2 insert_rows_keeps by blast
  have inv4: "tc_inv ?ls s4"
    unfolding s4_def using inv3
  proof (rule tc_inv_insert_rows)
    show "\<forall>v\<in>set (sel_from_output (db_dbpath s3) new ?k).
            0 < depth (new_path_row 0 v) \<and> justified (db_dbpath s3) (new_path_row 0 v)"
      using sel_from_output_justified [OF d3 d_props nonneg [OF inv3]] by blast
  qed
  have d4: "?d \<in> set (db_dbpath s4)"
    unfolding s4_def using d3 insert_rows_keeps by blast
  have "tc_inv ?ls s5"
    unfolding s5_def using inv4
  proof (rule tc_inv_insert_rows)
    show "\<forall>v\<in>set (sel_cross (db_dbpath s4) new ?k).
            0 < depth (new_path_row 0 v) \<and> justified (db_dbpath s4) (new_path_row 0 v)"
      using sel_cross_justified [OF d4 d_props nonneg [OF inv4]] by blast
  qed
  with res show ?thesis by simp
qed

lemma tc_inv_on_delete:
  assumes inv: "tc_inv ls s"
  shows "tc_inv (removeAll (input_id old, output_id old) ls) (snd (on_delete old s))"
proof -
  let ?t = "db_dbpath s"
  let ?P = "purge_loop ?t (purge_seed ?t old)"
  let ?t' = "filter (\<lambda>r. row_id r \<notin> set ?P) ?t"
  let ?ls = "removeAll (input_id old, output_id old) ls"
  from inv have old:
      "distinct (map row_id ?t)"
      "\<forall>r\<in>set ?t. row_id r \<le> dbpath_seq s"
      "\<forall>r\<in>set ?t. 0 \<le> depth r"
      "\<forall>r\<in>set ?t. depth r = 0 \<longrightarrow> (parent_id r, child_id r) \<in> set ls"
      "\<forall>r\<in>set ?t. 0 < depth r \<longrightarrow> justified ?t r"
    unfolding tc_inv_def by blast+
  show ?thesis
  proof (cases "exists_direct ?t (input_id old) (output_id old)")
    case False
    then have none: "\<forall>r\<in>set ?t. depth r = 0 \<longrightarrow>
        (parent_id r, child_id r) \<noteq> (input_id old, output_id old)"
      by (auto simp: exists_direct_iff)
    have "\<forall>r\<in>set ?t. depth r = 0 \<longrightarrow> (parent_id r, child_id r) \<in> set ?ls"
      using old(4) none by auto
    with old(1,2,3,5) have "tc_inv ?ls s" unfolding tc_inv_def by blast
    with False show ?thesis by (simp add: on_delete_def)
  next
    case True
    have seed: "set (purge_seed ?t old) \<subseteq> set ?P" by (rule purge_loop_grows)
    have 1: "distinct (map row_id ?t')"
      using old(1) by (simp add: distinct_map_filter)
    have 2: "\<forall>r\<in>set ?t'. row_id r \<le> dbpath_seq s" using old(2) by auto
    have 3: "\<forall>r\<in>set ?t'. 0 \<le> depth r" using old(3) by auto
    have 4: "\<forall>r\<in>set ?t'. depth r = 0 \<longrightarrow> (parent_id r, child_id r) \<in> set ?ls"
    proof (intro ballI impI)
      fix r assume r: "r \<in> set ?t'" "depth r = 0"
      then have rt: "r \<in> set ?t" "row_id r \<notin> set ?P" by auto
      have "(parent_id r, child_id r) \<noteq> (input_id old, output_id old)"
      proof
        assume "(parent_id r, child_id r) = (input_id old, output_id old)"
        with rt(1) r(2) have "row_id r \<in> set (purge_seed ?t old)"
          unfolding purge_seed_def by auto
        with seed rt(2) show False by blast
      qed
      moreover from rt(1) r(2) old(4) have "(parent_id r, child_id r) \<in> set ls" by blast
      ultimately show "(parent_id r, child_id r) \<in> set ?ls" by simp
    qed
    have keep: "q \<in> set ?t'" if "q \<in> set ?t" "row_id q \<notin> set ?P" for q
      using that by simp
    have 5: "\<forall>r\<in>set ?t'. 0 < depth r \<longrightarrow> justified ?t' r"
    proof (intro ballI impI)
      fix r assume r: "r \<in> set ?t'" "0 < depth r"
      then have rt: "r \<in> set ?t" "row_id r \<notin> set ?P" by auto
      have cite: "x \<notin> set ?P"
        if "entry_edge_id r = Some x \<or> direct_edge_id r = Some x \<or> exit_edge_id r = Some x"
        for x
      proof
        assume "x \<in> set ?P"
        with that have "in_purge (entry_edge_id r) ?P \<or> in_purge (direct_edge_id r) ?P
            \<or> in_purge (exit_edge_id r) ?P"
          by (auto simp: in_purge_def)
        from purge_loop_closed [OF rt(1) r(2) this] rt(2) show False by blast
      qed
      from rt(1) r(2) old(5) have "justified ?t r" by blast
      then obtain d where d: "d \<in> set ?t" "depth d = 0"
          "direct_edge_id r = Some (row_id d)"
          "entry_edge_id r = Some (row_id d) \<and> parent_id r = parent_id d
           \<or> (\<exists>e\<in>set ?t. entry_edge_id r = Some (row_id e) \<and> depth e < depth r
                 \<and> parent_id e = parent_id r \<and> child_id e = parent_id d)"
          "exit_edge_id r = Some (row_id d) \<and> child_id r = child_id d
           \<or> (\<exists>f\<in>set ?t. exit_edge_id r = Some (row_id f) \<and> depth f < depth r
                 \<and> parent_id f = child_id d \<and> child_id f = child_id r)"
        unfolding justified_def by blast
      have d': "d \<in> set ?t'" using d(1,3) cite keep by blast
      have en: "entry_edge_id r = Some (row_id d) \<and> parent_id r = parent_id d
           \<or> (\<exists>e\<in>set ?t'. entry_edge_id r = Some (row_id e) \<and> depth e < depth r
                 \<and> parent_id e = parent_id r \<and> child_id e = parent_id d)"
        using d(4) cite keep by blast
      have ex: "exit_edge_id r = Some (row_id d) \<and> child_id r = child_id d
           \<or> (\<exists>f\<in>set ?t'. exit_edge_id r = Some (row_id f) \<and> depth f < depth r
                 \<and> parent_id f = child_id d \<and> child_id f = child_id r)"
        using d(5) cite keep by blast
      from d' d(2,3) en ex show "justified ?t' r" unfolding justified_def by blast
    qed
    have "tc_inv ?ls (s\<lparr>db_dbpath := ?t'\<rparr>)"
      unfolding tc_inv_def using 1 2 3 4 5 by simp
    with True show ?thesis by (simp add: on_delete_def Let_def)
  qed
qed

lemma step_Insert_link:
  "step (Insert_link i out) (ls, s) =
     (if fst (on_insert \<lparr>input_id = i, output_id = out\<rparr> s) = Return_end
      then (ls @ [(i, out)], snd (on_insert \<lparr>input_id = i, output_id = out\<rparr> s))
      else (ls, snd (on_insert \<lparr>input_id = i, output_id = out\<rparr> s)))"
  by (simp add: update_tc_def split: prod.splits)

lemma tc_inv_step:
  assumes "tc_inv (fst w) (snd w)"
  shows "tc_inv (fst (step e w)) (snd (step e w))"
proof (cases w)
  case (Pair ls s)
  with assms have inv: "tc_inv ls s" by simp
  show ?thesis
  proof (cases e)
    case (Insert_link i out)
    let ?new = "\<lparr>input_id = i, output_id = out\<rparr>"
    show ?thesis
    proof (cases "fst (on_insert ?new s) = Return_end")
      case True
      with tc_inv_on_insert [OF inv True] show ?thesis
        unfolding Pair Insert_link step_Insert_link by simp
    next
      case False
      then have "snd (on_insert ?new s) = s"
        by (auto simp: on_insert_def Let_def split: if_splits)
      with False inv show ?thesis
        unfolding Pair Insert_link step_Insert_link by simp
    qed
  next
    case (Delete_link i out)
    with tc_inv_on_delete [OF inv, of "\<lparr>input_id = i, output_id = out\<rparr>"] show ?thesis
      by (simp add: Pair fire_def update_tc_def)
  qed
qed

lemma tc_inv_fold:
  assumes "tc_inv (fst w) (snd w)"
  shows "tc_inv (fst (fold step evs w)) (snd (fold step evs w))"
  using assms by (induction evs arbitrary: w) (simp_all add: tc_inv_step)

lemma tc_inv_run: "tc_inv (fst (run evs)) (snd (run evs))"
  unfolding run_def by (rule tc_inv_fold) (simp add: tc_inv_def empty_db_def)

lemma run_distinct_ids: "distinct (map row_id (db_dbpath (snd (run evs))))"
  using tc_inv_run [of evs] unfolding tc_inv_def by blast

lemma tc_inv_sound:
  assumes inv: "tc_inv ls s" and r: "r \<in> set (db_dbpath s)"
  shows "(parent_id r, child_id r) \<in> (set ls)\<^sup>+"
  using r
proof (induction "nat (depth r)" arbitrary: r rule: less_induct)
  case less
  from inv have props:
      "\<forall>r\<in>set (db_dbpath s). 0 \<le> depth r"
      "\<forall>r\<in>set (db_dbpath s). depth r = 0 \<longrightarrow> (parent_id r, child_id r) \<in> set ls"
      "\<forall>r\<in>set (db_dbpath s). 0 < depth r \<longrightarrow> justified (db_dbpath s) r"
    unfolding tc_inv_def by blast+
  show ?case
  proof (cases "depth r = 0")
    case True
    with props(2) less.prems show ?thesis by blast
  next
    case False
    with props(1) less.prems have pos: "0 < depth r" by fastforce
    with props(3) less.prems have "justified (db_dbpath s) r" by blast
    then obtain d where d: "d \<in> set (db_dbpath s)" "depth d = 0"
        "entry_edge_id r = Some (row_id d) \<and> parent_id r = parent_id d
         \<or> (\<exists>e\<in>set (db_dbpath s). entry_edge_id r = Some (row_id e) \<and> depth e < depth r
               \<and> parent_id e = parent_id r \<and> child_id e = parent_id d)"
        "exit_edge_id r = Some (row_id d) \<and> child_id r = child_id d
         \<or> (\<exists>f\<in>set (db_dbpath s). exit_edge_id r = Some (row_id f) \<and> depth f < depth r
               \<and> parent_id f = child_id d \<and> child_id f = child_id r)"
      unfolding justified_def by blast
    have smaller: "(parent_id q, child_id q) \<in> (set ls)\<^sup>+"
      if "q \<in> set (db_dbpath s)" "depth q < depth r" for q
    proof -
      from that pos have "nat (depth q) < nat (depth r)" by simp
      then show ?thesis using that(1) by (rule less.hyps)
    qed
    from d(1,2) props(2) have mid: "(parent_id d, child_id d) \<in> (set ls)\<^sup>+" by blast
    from d(3) have front: "(parent_id r, child_id d) \<in> (set ls)\<^sup>+"
    proof
      assume "entry_edge_id r = Some (row_id d) \<and> parent_id r = parent_id d"
      with mid show ?thesis by simp
    next
      assume "\<exists>e\<in>set (db_dbpath s). entry_edge_id r = Some (row_id e) \<and> depth e < depth r
               \<and> parent_id e = parent_id r \<and> child_id e = parent_id d"
      then obtain e where e: "e \<in> set (db_dbpath s)" "depth e < depth r"
          "parent_id e = parent_id r" "child_id e = parent_id d" by blast
      from smaller [OF e(1,2)] e(3,4) mid show ?thesis by (auto intro: trancl_trans)
    qed
    from d(4) show ?thesis
    proof
      assume "exit_edge_id r = Some (row_id d) \<and> child_id r = child_id d"
      with front show ?thesis by simp
    next
      assume "\<exists>f\<in>set (db_dbpath s). exit_edge_id r = Some (row_id f) \<and> depth f < depth r
               \<and> parent_id f = child_id d \<and> child_id f = child_id r"
      then obtain f where f: "f \<in> set (db_dbpath s)" "depth f < depth r"
          "parent_id f = child_id d" "child_id f = child_id r" by blast
      from smaller [OF f(1,2)] f(3,4) front show ?thesis by (auto intro: trancl_trans)
    qed
  qed
qed

subsection \<open>Soundness of the closure table\<close>

text \<open>
  Claim C1. After any sequence of link insertions and deletions run through the trigger
  from the empty table (an insertion counts as made when the trigger accepts it), every
  row of the closure table has a directed path of one or more current links from its
  parent to its child.
\<close>

theorem closure_sound:
  assumes "r \<in> set (db_dbpath (snd (run evs)))"
  shows "(parent_id r, child_id r) \<in> (set (fst (run evs)))\<^sup>+"
  using tc_inv_run assms by (rule tc_inv_sound)

text \<open>After the links \<open>(1, 2)\<close> and \<open>(2, 3)\<close> the table holds a row for \<open>(1, 3)\<close>, and
  \<open>3\<close> is reached from \<open>1\<close> over the two links.\<close>

theorem closure_sound_witness:
  "\<lparr>row_id = 3, parent_id = 1, child_id = 3, depth = 1,
     entry_edge_id = Some 1, direct_edge_id = Some 2, exit_edge_id = Some 2\<rparr>
     \<in> set (db_dbpath (snd (run [Insert_link 1 2, Insert_link 2 3])))
   \<and> (1, 3) \<in> (set (fst (run [Insert_link 1 2, Insert_link 2 3])))\<^sup>+"
proof -
  have m: "\<lparr>row_id = 3, parent_id = 1, child_id = 3, depth = 1,
     entry_edge_id = Some 1, direct_edge_id = Some 2, exit_edge_id = Some 2\<rparr>
     \<in> set (db_dbpath (snd (run [Insert_link 1 2, Insert_link 2 3])))"
    by (simp add: run_def stmt_defs Let_def)
  from closure_sound [OF m] m show ?thesis by simp
qed

end
